theory Spec2Isabelle
  imports Main
begin

section \<open>JavaScript strings and regular expressions\<close>

text \<open>
  A string is the list of its code units. The development covers ASCII text: every
  pattern and every literal of the repository is ASCII. \<open>toLowerCase\<close> lowers the
  ASCII capitals and keeps every other unit (JavaScript also lowers the capitals beyond
  ASCII, which occur in no input that the functions below accept).
\<close>

definition startsWith :: "string \<Rightarrow> string \<Rightarrow> bool" where
  "startsWith s p = (take (length p) s = p)"

definition endsWith :: "string \<Rightarrow> string \<Rightarrow> bool" where
  "endsWith s p = (length p \<le> length s \<and> drop (length s - length p) s = p)"

definition charAt :: "string \<Rightarrow> nat \<Rightarrow> string" where
  "charAt s i = (if i < length s then [s ! i] else [])"

definition isDigit :: "char \<Rightarrow> bool" where
  "isDigit c = (c \<in> set ''0123456789'')"

definition isWhiteSpace :: "char \<Rightarrow> bool" where
  "isWhiteSpace c = (c \<in> set [CHR 0x09, CHR 0x0A, CHR 0x0B, CHR 0x0C, CHR 0x0D, CHR '' '', CHR 0xA0])"

definition toLowerChar :: "char \<Rightarrow> char" where
  "toLowerChar c =
     (case map_of (zip ''ABCDEFGHIJKLMNOPQRSTUVWXYZ'' ''abcdefghijklmnopqrstuvwxyz'') c of
        Some l \<Rightarrow> l
      | None \<Rightarrow> c)"

definition toLowerCase :: "string \<Rightarrow> string" where
  "toLowerCase s = map toLowerChar s"

text \<open>
  The regular expressions of the repository are all anchored (\<open>^...$\<close>) sequences of
  character classes, each with a repetition range: \<open>Atom cls lo hi\<close> is the class
  \<open>cls\<close> (the list of its characters, ranges written out) repeated at least \<open>lo\<close>
  and, when \<open>hi\<close> is given, at most \<open>hi\<close> times. \<open>regex_test\<close> is \<open>RegExp.prototype.test\<close> for such
  a pattern: it tries every admissible length of the first atom.
\<close>

type_synonym char_class = "char list"

datatype atom = Atom char_class nat "nat option"

definition in_class :: "char_class \<Rightarrow> char \<Rightarrow> bool" where
  "in_class cls c = (c \<in> set cls)"

fun regex_test :: "atom list \<Rightarrow> string \<Rightarrow> bool" where
  "regex_test [] s = (s = [])"
| "regex_test (Atom cls lo hi # rest) s =
     list_ex (\<lambda>k. list_all (in_class cls) (take k s) \<and> regex_test rest (drop k s))
       [lo ..< Suc (case hi of None \<Rightarrow> length s | Some h \<Rightarrow> min h (length s))]"

declare regex_test.simps(2) [simp del]

definition lit :: "string \<Rightarrow> atom list" where
  "lit s = map (\<lambda>c. Atom [c] 1 (Some 1)) s"

definition one :: "char_class \<Rightarrow> atom list" where
  "one cls = [Atom cls 1 (Some 1)]"

definition plus :: "char_class \<Rightarrow> atom list" where
  "plus cls = [Atom cls 1 None]"

definition at_least :: "nat \<Rightarrow> char_class \<Rightarrow> atom list" where
  "at_least m cls = [Atom cls m None]"

definition between :: "nat \<Rightarrow> nat \<Rightarrow> char_class \<Rightarrow> atom list" where
  "between m n cls = [Atom cls m (Some n)]"

text \<open>
  With the flag \<open>i\<close> both the pattern and the input are canonicalised per character.
  For a pattern made of digits and lower-case ASCII letters this is the plain match of
  the input with its ASCII capitals lowered; a code unit from 128 on never matches an
  ASCII pattern character.
\<close>

definition regex_test_i :: "atom list \<Rightarrow> string \<Rightarrow> bool" where
  "regex_test_i r s = regex_test r (map toLowerChar s)"

definition base32 :: char_class where
  "base32 = ''abcdefghijklmnopqrstuvwxyz234567''"

definition digit :: char_class where
  "digit = ''0123456789''"

definition base58 :: char_class where
  "base58 = ''123456789ABCDEFGHJKLMNPQRSTUVWXYZabcdefghijkmnopqrstuvwxyz''"

definition hex :: char_class where
  "hex = ''abcdefABCDEF0123456789''"

definition lower_hex :: char_class where
  "lower_hex = ''abcdef0123456789''"

section \<open>CID utilities (cidUtils.ts)\<close>

definition CID_V0_PATTERN :: "atom list" where
  "CID_V0_PATTERN = lit ''Qm'' @ between 44 44 base58"

definition CID_V1_PATTERN :: "atom list" where
  "CID_V1_PATTERN = lit ''b'' @ at_least 58 base32"

definition CID_BASE32_PATTERN :: "atom list" where
  "CID_BASE32_PATTERN = lit ''ba'' @ plus base32"

definition validateCid :: "string \<Rightarrow> bool" where
  "validateCid cid =
     (if cid = [] then False
      else if startsWith cid ''Qm'' then regex_test CID_V0_PATTERN cid
      else if startsWith cid ''b'' then length cid \<ge> 59
      else if startsWith cid ''ba'' then regex_test CID_BASE32_PATTERN cid
      else False)"

text \<open>
  \<open>calculatePaddedPieceSize\<close> works on \<open>bigint\<close>, modelled by \<open>int\<close>. Its loop doubles
  \<open>size\<close> (here \<open>sz\<close>) while \<open>size < dataSize\<close>; \<open>None\<close> stands for a loop that does not return.
\<close>

partial_function (option) next_power :: "int \<Rightarrow> int \<Rightarrow> int option" where
  "next_power sz dataSize =
     (if sz < dataSize then next_power (sz * 2) dataSize else Some sz)"

declare next_power.simps [code]

definition calculatePaddedPieceSize :: "int \<Rightarrow> int option" where
  "calculatePaddedPieceSize dataSize =
     (if dataSize \<le> 0 then Some 256
      else case next_power 1 dataSize of
             None \<Rightarrow> None
           | Some sz \<Rightarrow> Some (if sz < 256 then 256 else sz))"

section \<open>JavaScript numbers holding integers\<close>

text \<open>
  A \<open>number\<close> is an IEEE 754 double. \<open>Num i\<close> stands for the double with the integer
  value \<open>i\<close>; every integer of magnitude up to \<open>2 ^ 53\<close> is one. An operation whose
  exact result is an integer returns that integer rounded to the nearest double, ties to
  the even significand (\<open>round_to_double\<close>; \<open>None\<close> is the overflow to infinity).
\<close>

datatype number = NaN | PosInfinity | NegInfinity | Num int

fun bit_length :: "nat \<Rightarrow> nat" where
  "bit_length n = (if n = 0 then 0 else Suc (bit_length (n div 2)))"

declare bit_length.simps [simp del]

definition round_to_double :: "nat \<Rightarrow> nat option" where
  "round_to_double n =
     (if n < 2 ^ 53 then Some n
      else let sh = bit_length n - 53;
               q = n div 2 ^ sh;
               r = n mod 2 ^ sh;
               half = 2 ^ (sh - 1);
               m = (if half < r \<or> (r = half \<and> odd q) then q + 1 else q)
           in if 2 ^ 1024 \<le> m * 2 ^ sh then None else Some (m * 2 ^ sh))"

definition number_of_int :: "int \<Rightarrow> number" where
  "number_of_int i =
     (case round_to_double (nat \<bar>i\<bar>) of
        None \<Rightarrow> (if i < 0 then NegInfinity else PosInfinity)
      | Some m \<Rightarrow> Num (if i < 0 then - int m else int m))"

text \<open>The prefix increment \<open>++x\<close>: the double nearest to \<open>x + 1\<close>.\<close>

definition increment :: "number \<Rightarrow> number" where
  "increment x = (case x of Num i \<Rightarrow> number_of_int (i + 1) | _ \<Rightarrow> x)"

text \<open>Decimal digits of a natural number, and the value of a digit string.\<close>

definition digit_char :: "nat \<Rightarrow> char" where
  "digit_char d = ''0123456789'' ! d"

fun digits_of :: "nat \<Rightarrow> string" where
  "digits_of n = (if n < 10 then [digit_char n] else digits_of (n div 10) @ [digit_char (n mod 10)])"

declare digits_of.simps [simp del]

definition digit_value :: "char \<Rightarrow> nat" where
  "digit_value c = (case map_of (zip ''0123456789'' [0, 1, 2, 3, 4, 5, 6, 7, 8, 9]) c of
        Some d \<Rightarrow> d
      | None \<Rightarrow> 0)"

definition nat_of_digits :: "string \<Rightarrow> nat" where
  "nat_of_digits s = foldl (\<lambda>acc c. 10 * acc + digit_value c) 0 s"

text \<open>
  \<open>Number::toString\<close> on a number with the non-negative integer value \<open>x\<close>. The
  digits printed are those of the integer with the fewest significant digits that reads
  back as \<open>x\<close>, that is, whose nearest double is \<open>x\<close>; among several such integers the
  one closest to \<open>x\<close> is taken and, on a tie, the one whose last significant digit is even
  (the standard leaves the last digit open and recommends the closest, which is what the
  engines print). An integer with at most \<open>k\<close> significant digits near \<open>x\<close> is a
  multiple of \<open>10 ^ j\<close>; \<open>candidate x j\<close> looks at the multiples just below and just
  above \<open>x\<close>, and \<open>shortest_decimal\<close> tries the largest \<open>j\<close> first. The integer found
  is printed in plain decimal digits below \<open>10 ^ 21\<close> and in exponent notation from
  there on.
\<close>

definition candidate :: "nat \<Rightarrow> nat \<Rightarrow> nat option" where
  "candidate x j =
     (let lo = (x div 10 ^ j) * 10 ^ j;
          hi = lo + 10 ^ j;
          ok_lo = (round_to_double lo = Some x);
          ok_hi = (round_to_double hi = Some x)
      in if ok_lo \<and> ok_hi
         then Some (if x - lo < hi - x then lo
                    else if hi - x < x - lo then hi
                    else if even (x div 10 ^ j) then lo else hi)
         else if ok_lo then Some lo
         else if ok_hi then Some hi
         else None)"

fun shortest_decimal_from :: "nat \<Rightarrow> nat \<Rightarrow> nat" where
  "shortest_decimal_from x j =
     (if j = 0 then x
      else case candidate x j of
             Some v \<Rightarrow> v
           | None \<Rightarrow> shortest_decimal_from x (j - 1))"

declare shortest_decimal_from.simps [simp del]

definition shortest_decimal :: "nat \<Rightarrow> nat" where
  "shortest_decimal x = shortest_decimal_from x (length (digits_of x) - 1)"

definition strip_trailing_zeros :: "string \<Rightarrow> string" where
  "strip_trailing_zeros s = rev (dropWhile (\<lambda>c. c = CHR ''0'') (rev s))"

definition nat_to_string :: "nat \<Rightarrow> string" where
  "nat_to_string n =
     (let v = shortest_decimal n in
      if v < 10 ^ 21 then digits_of v
      else let ds = digits_of v; sig = strip_trailing_zeros ds
           in (if length sig = 1 then sig else hd sig # CHR ''.'' # tl sig)
              @ ''e+'' @ digits_of (length ds - 1))"

definition number_to_string :: "number \<Rightarrow> string" where
  "number_to_string x =
     (case x of
        NaN \<Rightarrow> ''NaN''
      | PosInfinity \<Rightarrow> ''Infinity''
      | NegInfinity \<Rightarrow> ''-Infinity''
      | Num i \<Rightarrow> (if i < 0 then CHR ''-'' # nat_to_string (nat (- i)) else nat_to_string (nat i)))"

text \<open>
  \<open>parseInt(s, 10)\<close>: leading white space is skipped, a sign is read, then the longest
  run of decimal digits; \<open>None\<close> is \<open>NaN\<close> (no digit). The value is the mathematical
  integer; a caller that keeps it as a number rounds it with \<open>number_of_int\<close>.
\<close>

definition parseInt :: "string \<Rightarrow> int option" where
  "parseInt s =
     (let t = dropWhile isWhiteSpace s;
          neg = (t \<noteq> [] \<and> hd t = CHR ''-'');
          u = (if t \<noteq> [] \<and> (hd t = CHR ''-'' \<or> hd t = CHR ''+'') then tl t else t);
          z = takeWhile isDigit u
      in if z = [] then None
         else Some (if neg then - int (nat_of_digits z) else int (nat_of_digits z)))"

section \<open>Address constants (constants/addresses.ts)\<close>

definition ft :: char_class where
  "ft = ''ft''"

definition ID_ADDRESS :: "atom list" where
  "ID_ADDRESS = one ft @ lit ''0'' @ plus digit"

definition SECP256K1_ADDRESS :: "atom list" where
  "SECP256K1_ADDRESS = one ft @ lit ''1'' @ between 38 39 base32"

definition ACTOR_ADDRESS :: "atom list" where
  "ACTOR_ADDRESS = one ft @ lit ''2'' @ between 38 39 base32"

definition BLS_ADDRESS :: "atom list" where
  "BLS_ADDRESS = one ft @ lit ''3'' @ between 84 86 base32"

definition DELEGATED_ADDRESS :: "atom list" where
  "DELEGATED_ADDRESS = one ft @ lit ''4'' @ plus digit @ lit ''f'' @ plus base32"

definition ETH_ADDRESS :: "atom list" where
  "ETH_ADDRESS = lit ''0x'' @ between 40 40 hex"

definition getAddressType :: "string \<Rightarrow> int option" where
  "getAddressType address =
     (if address = [] \<or> length address < 2 then None
      else let prefix = charAt address 0 in
        if prefix \<noteq> ''f'' \<and> prefix \<noteq> ''t'' then None
        else case parseInt (charAt address 1) of
               None \<Rightarrow> None
             | Some protocol \<Rightarrow> if protocol < 0 \<or> protocol > 4 then None else Some protocol)"

section \<open>Address utilities (addressUtils.ts)\<close>

datatype error = Error string | SyntaxError | RangeError | TypeError

definition validateAddress :: "string \<Rightarrow> bool" where
  "validateAddress address =
     (if address = [] then False
      else if startsWith address ''0x'' then regex_test ETH_ADDRESS address
      else let prefix = charAt address 0 in
        if prefix \<noteq> ''f'' \<and> prefix \<noteq> ''t'' then False
        else case parseInt (charAt address 1) of
               None \<Rightarrow> False
             | Some protocol \<Rightarrow>
                 if protocol < 0 \<or> protocol > 4 then False
                 else if protocol = 0 then regex_test ID_ADDRESS address
                 else if protocol = 1 then regex_test SECP256K1_ADDRESS address
                 else if protocol = 2 then regex_test ACTOR_ADDRESS address
                 else if protocol = 3 then regex_test BLS_ADDRESS address
                 else if protocol = 4 then length address > 3
                 else False)"

definition isRobustAddress :: "string \<Rightarrow> bool" where
  "isRobustAddress address =
     (let type = getAddressType address in type \<noteq> None \<and> type \<noteq> Some 0)"

definition extractIdFromAddress :: "string \<Rightarrow> number option" where
  "extractIdFromAddress address =
     (if \<not> regex_test ID_ADDRESS address then None
      else Some (case parseInt (drop 2 address) of
                   None \<Rightarrow> NaN
                 | Some i \<Rightarrow> number_of_int i))"

definition createIdAddress :: "number \<Rightarrow> bool \<Rightarrow> string" where
  "createIdAddress ident testnet =
     (let prefix = (if testnet then ''t'' else ''f'')
      in prefix @ ''0'' @ number_to_string ident)"

definition ethAddressToFilecoin :: "string \<Rightarrow> bool \<Rightarrow> error + string" where
  "ethAddressToFilecoin ethAddress testnet =
     (if \<not> regex_test ETH_ADDRESS ethAddress then Inl (Error ''Invalid Ethereum address'')
      else let prefix = (if testnet then ''t'' else ''f'');
               cleanAddress = drop 2 (toLowerCase ethAddress)
           in Inr (prefix @ ''410f'' @ cleanAddress))"

definition F4_ETH_PATTERN :: "atom list" where
  "F4_ETH_PATTERN = one ft @ lit ''410f'' @ between 40 40 lower_hex"

definition filecoinToEthAddress :: "string \<Rightarrow> string option" where
  "filecoinToEthAddress f4Address =
     (if \<not> regex_test_i F4_ETH_PATTERN f4Address then None
      else let ethPart = drop 5 f4Address in Some (''0x'' @ ethPart))"

section \<open>Lotus RPC client (transport/lotusClient.ts)\<close>

text \<open>
  \<open>String.prototype.includes\<close>: the pattern occurs at some offset of the string.
\<close>

definition string_includes :: "string \<Rightarrow> string \<Rightarrow> bool" where
  "string_includes s p = list_ex (\<lambda>i. take (length p) (drop i s) = p) [0 ..< Suc (length s)]"

record rpc_error =
  code :: int
  message :: string

record 'a LotusResponse =
  result :: "'a option"
  error :: "rpc_error option"

record 'p rpc_request =
  jsonrpc :: string
  rpc_method :: string
  params :: "'p list"
  request_id :: number

text \<open>
  What \<open>await this.client.post(...)\<close> yields: a response with a 2xx status and its
  decoded body; a rejection with an \<open>AxiosError\<close> (connection failure, timeout, status
  outside 2xx), which carries a message and, when the server answered, the body; or the
  throw of any other value.
\<close>

datatype 'a post_outcome =
    Response "'a LotusResponse"
  | AxiosError string "'a LotusResponse option"
  | OtherThrow error

record LotusClient =
  requestId :: number

definition new_LotusClient :: LotusClient where
  "new_LotusClient = \<lparr>requestId = Num 0\<rparr>"

text \<open>
  \<open>call\<close> increments the counter, posts the request and turns the outcome into a
  result or a thrown error. The model returns the request that was posted, the result
  (\<open>Inl\<close> is a throw) and the client with its counter updated. The transport is the
  function \<open>post\<close>. A result that the body leaves out is \<open>None\<close>; the fields
  \<open>method\<close> and \<open>id\<close> of the request are \<open>rpc_method\<close> and \<open>request_id\<close> here.
\<close>

definition call ::
  "LotusClient \<Rightarrow> ('p rpc_request \<Rightarrow> 'a post_outcome) \<Rightarrow> string \<Rightarrow> 'p list
     \<Rightarrow> 'p rpc_request \<times> (error + 'a option) \<times> LotusClient" where
  "call this post meth ps =
     (let ident = increment (requestId this);
          this' = this\<lparr>requestId := ident\<rparr>;
          request = \<lparr>jsonrpc = ''2.0'', rpc_method = ''Filecoin.'' @ meth, params = ps, request_id = ident\<rparr>
      in (request,
          (case post request of
             Response data \<Rightarrow>
               (case error data of
                  Some e \<Rightarrow> Inl (Error (''Lotus RPC Error: '' @ message e))
                | None \<Rightarrow> Inr (result data))
           | AxiosError msg response \<Rightarrow>
               (case response of
                  Some data \<Rightarrow>
                    (case error data of
                       Some e \<Rightarrow> Inl (Error (''Lotus RPC Error: '' @ message e))
                     | None \<Rightarrow> Inl (Error (''Lotus connection error: '' @ msg)))
                | None \<Rightarrow> Inl (Error (''Lotus connection error: '' @ msg)))
           | OtherThrow e \<Rightarrow> Inl e),
          this'))"

text \<open>
  A session of a client: the calls are made one after the other, each with its own
  method, parameters and transport behaviour; \<open>session_ids\<close> lists the ids of the
  requests posted, in order.
\<close>

fun session_ids ::
  "LotusClient \<Rightarrow> (('p rpc_request \<Rightarrow> 'a post_outcome) \<times> string \<times> 'p list) list \<Rightarrow> number list" where
  "session_ids this [] = []"
| "session_ids this ((post, meth, ps) # cs) =
     (case call this post meth ps of
        (request, r, this') \<Rightarrow> request_id request # session_ids this' cs)"

section \<open>Regular expressions: the shape of a match\<close>

lemma bex_upto: "(\<exists>k \<in> {lo ..< Suc n}. P k) \<longleftrightarrow> (\<exists>k. lo \<le> k \<and> k \<le> n \<and> P k)"
  by (auto simp: less_Suc_eq_le)

lemma bex_upto_min: "(\<exists>k \<in> {lo ..< Suc (min h n)}. P k) \<longleftrightarrow> (\<exists>k. lo \<le> k \<and> k \<le> n \<and> k \<le> h \<and> P k)"
  by (auto simp: less_Suc_eq_le)

lemma regex_test_atom:
  "regex_test (Atom cls lo hi # rest) s \<longleftrightarrow>
     (\<exists>k. lo \<le> k \<and> k \<le> length s \<and> (\<forall>h. hi = Some h \<longrightarrow> k \<le> h) \<and>
          (\<forall>c \<in> set (take k s). in_class cls c) \<and> regex_test rest (drop k s))"
proof (cases hi)
  case None
  show ?thesis
    unfolding None regex_test.simps(2) list_ex_iff list_all_iff set_upt option.case bex_upto
    by simp
next
  case (Some h)
  show ?thesis
    unfolding Some regex_test.simps(2) list_ex_iff list_all_iff set_upt option.case bex_upto_min
    by simp
qed

lemma regex_test_one:
  "regex_test (Atom cls (Suc 0) (Some (Suc 0)) # rest) s \<longleftrightarrow>
     (\<exists>c t. s = c # t \<and> c \<in> set cls \<and> regex_test rest t)"
proof (cases s)
  case Nil
  then show ?thesis unfolding regex_test_atom by simp
next
  case (Cons c t)
  have "(\<exists>k. Suc 0 \<le> k \<and> k \<le> length s \<and> (\<forall>h. Some (Suc 0) = Some h \<longrightarrow> k \<le> h) \<and>
          (\<forall>c \<in> set (take k s). in_class cls c) \<and> regex_test rest (drop k s))
        \<longleftrightarrow> ((\<forall>c \<in> set (take (Suc 0) s). in_class cls c) \<and> regex_test rest (drop (Suc 0) s))"
    (is "?L \<longleftrightarrow> ?R")
  proof
    assume ?L
    then obtain k where "Suc 0 \<le> k" "k \<le> Suc 0" and
      r: "(\<forall>c \<in> set (take k s). in_class cls c) \<and> regex_test rest (drop k s)" by blast
    then have "k = Suc 0" by simp
    with r show ?R by simp
  next
    assume ?R
    with Cons show ?L by (intro exI[of _ "Suc 0"]) simp
  qed
  then show ?thesis unfolding regex_test_atom using Cons by (simp add: in_class_def)
qed

lemma regex_test_last:
  "regex_test [Atom cls lo hi] s \<longleftrightarrow>
     (lo \<le> length s \<and> (\<forall>h. hi = Some h \<longrightarrow> length s \<le> h) \<and> set s \<subseteq> set cls)"
proof
  assume "regex_test [Atom cls lo hi] s"
  then obtain k where k: "lo \<le> k" "k \<le> length s" "\<forall>h. hi = Some h \<longrightarrow> k \<le> h"
    "\<forall>c \<in> set (take k s). in_class cls c" "regex_test [] (drop k s)"
    unfolding regex_test_atom by blast
  then have "k = length s" by simp
  with k show "lo \<le> length s \<and> (\<forall>h. hi = Some h \<longrightarrow> length s \<le> h) \<and> set s \<subseteq> set cls"
    by (auto simp: in_class_def)
next
  assume "lo \<le> length s \<and> (\<forall>h. hi = Some h \<longrightarrow> length s \<le> h) \<and> set s \<subseteq> set cls"
  then show "regex_test [Atom cls lo hi] s"
    unfolding regex_test_atom by (intro exI[of _ "length s"]) (auto simp: in_class_def)
qed

lemma regex_test_lit:
  "regex_test (lit p @ rest) s \<longleftrightarrow> (\<exists>t. s = p @ t \<and> regex_test rest t)"
proof (induction p arbitrary: s)
  case Nil
  then show ?case by (simp add: lit_def)
next
  case (Cons c p)
  have "regex_test (lit (c # p) @ rest) s \<longleftrightarrow>
        (\<exists>c' t. s = c' # t \<and> c' \<in> set [c] \<and> regex_test (lit p @ rest) t)"
    using regex_test_one[of "[c]" "lit p @ rest" s] by (simp add: lit_def)
  also have "\<dots> \<longleftrightarrow> (\<exists>t. s = (c # p) @ t \<and> regex_test rest t)"
    using Cons.IH by auto
  finally show ?case .
qed

lemma regex_test_class:
  "regex_test (one cls @ rest) s \<longleftrightarrow> (\<exists>c t. s = c # t \<and> c \<in> set cls \<and> regex_test rest t)"
  using regex_test_one[of cls rest s] by (simp add: one_def)

lemma regex_test_between:
  "regex_test (between lo hi cls) s \<longleftrightarrow> (lo \<le> length s \<and> length s \<le> hi \<and> set s \<subseteq> set cls)"
  by (simp add: between_def regex_test_last)

lemma regex_test_at_least:
  "regex_test (at_least lo cls) s \<longleftrightarrow> (lo \<le> length s \<and> set s \<subseteq> set cls)"
  by (simp add: at_least_def regex_test_last)

lemma regex_test_plus:
  "regex_test (plus cls) s \<longleftrightarrow> (s \<noteq> [] \<and> set s \<subseteq> set cls)"
  by (simp add: plus_def regex_test_last Suc_le_eq)

lemma ft_iff: "c \<in> set ft \<longleftrightarrow> c = CHR ''f'' \<or> c = CHR ''t''"
  by (auto simp: ft_def)



lemma ID_ADDRESS_iff:
  "regex_test ID_ADDRESS a \<longleftrightarrow>
     (\<exists>p ds. a = p # CHR ''0'' # ds \<and> (p = CHR ''f'' \<or> p = CHR ''t'') \<and> ds \<noteq> [] \<and> set ds \<subseteq> set digit)"
  unfolding ID_ADDRESS_def regex_test_class regex_test_lit regex_test_plus ft_iff by auto

lemma ETH_ADDRESS_iff:
  "regex_test ETH_ADDRESS e \<longleftrightarrow> (\<exists>h. e = ''0x'' @ h \<and> length h = 40 \<and> set h \<subseteq> set hex)"
  unfolding ETH_ADDRESS_def regex_test_lit regex_test_between by auto

lemma F4_ETH_PATTERN_iff:
  "regex_test F4_ETH_PATTERN a \<longleftrightarrow>
     (\<exists>p h. a = p # ''410f'' @ h \<and> (p = CHR ''f'' \<or> p = CHR ''t'') \<and> length h = 40 \<and> set h \<subseteq> set lower_hex)"
  unfolding F4_ETH_PATTERN_def regex_test_class regex_test_lit regex_test_between ft_iff by fastforce

lemma hash_address_iff:
  "regex_test (one ft @ lit [d] @ between lo hi base32) a \<longleftrightarrow>
     (\<exists>p r. a = p # d # r \<and> (p = CHR ''f'' \<or> p = CHR ''t'') \<and> lo \<le> length r \<and> length r \<le> hi \<and> set r \<subseteq> set base32)"
  unfolding regex_test_class regex_test_lit regex_test_between ft_iff by auto

lemma DELEGATED_ADDRESS_length:
  assumes "regex_test DELEGATED_ADDRESS a"
  shows "\<exists>p r. a = p # CHR ''4'' # r \<and> (p = CHR ''f'' \<or> p = CHR ''t'') \<and> 3 \<le> length r"
proof -
  from assms obtain p r where a: "a = p # CHR ''4'' # r" "p = CHR ''f'' \<or> p = CHR ''t''"
    and r: "regex_test (plus digit @ lit ''f'' @ plus base32) r"
    unfolding DELEGATED_ADDRESS_def regex_test_class regex_test_lit ft_iff by auto
  from r obtain k where k: "Suc 0 \<le> k" "k \<le> length r"
    "regex_test (lit ''f'' @ plus base32) (drop k r)"
    unfolding plus_def by (auto simp: regex_test_atom[of digit])
  from k(3) obtain t where t: "drop k r = ''f'' @ t" "t \<noteq> []"
    unfolding regex_test_lit regex_test_plus by auto
  have "length (drop k r) = length r - k" by simp
  with t have "length r - k \<ge> 2" by (cases t) auto
  with k have "3 \<le> length r" by simp
  with a show ?thesis by blast
qed

lemma parseInt_single:
  "parseInt [d] = (if isDigit d then Some (int (digit_value d)) else None)"
  by (auto simp: parseInt_def Let_def isDigit_def isWhiteSpace_def nat_of_digits_def)

lemma digit_value_simps:
  "digit_value CHR ''0'' = 0" "digit_value CHR ''1'' = 1" "digit_value CHR ''2'' = 2"
  "digit_value CHR ''3'' = 3" "digit_value CHR ''4'' = 4" "digit_value CHR ''5'' = 5"
  "digit_value CHR ''6'' = 6" "digit_value CHR ''7'' = 7" "digit_value CHR ''8'' = 8"
  "digit_value CHR ''9'' = 9"
  by (simp_all add: digit_value_def)

lemma validateAddress_short: "validateAddress [] = False" "validateAddress [c] = False"
  by (auto simp: validateAddress_def startsWith_def charAt_def parseInt_def Let_def)

lemma validateAddress_Cons2:
  "validateAddress (c # d # r) =
     (if c = CHR ''0'' \<and> d = CHR ''x'' then regex_test ETH_ADDRESS (c # d # r)
      else if c \<noteq> CHR ''f'' \<and> c \<noteq> CHR ''t'' then False
      else if d = CHR ''0'' then regex_test ID_ADDRESS (c # d # r)
      else if d = CHR ''1'' then regex_test SECP256K1_ADDRESS (c # d # r)
      else if d = CHR ''2'' then regex_test ACTOR_ADDRESS (c # d # r)
      else if d = CHR ''3'' then regex_test BLS_ADDRESS (c # d # r)
      else if d = CHR ''4'' then 2 \<le> length r
      else False)"
  by (auto simp: validateAddress_def startsWith_def charAt_def parseInt_single isDigit_def
        digit_value_simps Let_def)

lemma hash_patterns_iff:
  "regex_test SECP256K1_ADDRESS a \<longleftrightarrow>
     (\<exists>p r. a = p # CHR ''1'' # r \<and> (p = CHR ''f'' \<or> p = CHR ''t'') \<and> 38 \<le> length r \<and> length r \<le> 39 \<and> set r \<subseteq> set base32)"
  "regex_test ACTOR_ADDRESS a \<longleftrightarrow>
     (\<exists>p r. a = p # CHR ''2'' # r \<and> (p = CHR ''f'' \<or> p = CHR ''t'') \<and> 38 \<le> length r \<and> length r \<le> 39 \<and> set r \<subseteq> set base32)"
  "regex_test BLS_ADDRESS a \<longleftrightarrow>
     (\<exists>p r. a = p # CHR ''3'' # r \<and> (p = CHR ''f'' \<or> p = CHR ''t'') \<and> 84 \<le> length r \<and> length r \<le> 86 \<and> set r \<subseteq> set base32)"
  unfolding SECP256K1_ADDRESS_def ACTOR_ADDRESS_def BLS_ADDRESS_def by (rule hash_address_iff)+

lemma ETH_head: "regex_test ETH_ADDRESS a \<Longrightarrow> \<exists>r. a = CHR ''0'' # CHR ''x'' # r"
  unfolding ETH_ADDRESS_iff by (elim exE conjE) simp

lemma ID_head: "regex_test ID_ADDRESS a \<Longrightarrow> \<exists>p r. a = p # CHR ''0'' # r \<and> (p = CHR ''f'' \<or> p = CHR ''t'')"
  unfolding ID_ADDRESS_iff by blast

lemma SECP_head: "regex_test SECP256K1_ADDRESS a \<Longrightarrow> \<exists>p r. a = p # CHR ''1'' # r \<and> (p = CHR ''f'' \<or> p = CHR ''t'')"
  unfolding hash_patterns_iff by blast

lemma ACTOR_head: "regex_test ACTOR_ADDRESS a \<Longrightarrow> \<exists>p r. a = p # CHR ''2'' # r \<and> (p = CHR ''f'' \<or> p = CHR ''t'')"
  unfolding hash_patterns_iff by blast

lemma BLS_head: "regex_test BLS_ADDRESS a \<Longrightarrow> \<exists>p r. a = p # CHR ''3'' # r \<and> (p = CHR ''f'' \<or> p = CHR ''t'')"
  unfolding hash_patterns_iff by blast

lemma pattern_Cons2:
  "regex_test ETH_ADDRESS (c # d # r) \<Longrightarrow> c = CHR ''0'' \<and> d = CHR ''x''"
  "regex_test ID_ADDRESS (c # d # r) \<Longrightarrow> (c = CHR ''f'' \<or> c = CHR ''t'') \<and> d = CHR ''0''"
  "regex_test SECP256K1_ADDRESS (c # d # r) \<Longrightarrow> (c = CHR ''f'' \<or> c = CHR ''t'') \<and> d = CHR ''1''"
  "regex_test ACTOR_ADDRESS (c # d # r) \<Longrightarrow> (c = CHR ''f'' \<or> c = CHR ''t'') \<and> d = CHR ''2''"
  "regex_test BLS_ADDRESS (c # d # r) \<Longrightarrow> (c = CHR ''f'' \<or> c = CHR ''t'') \<and> d = CHR ''3''"
  using ETH_head[of "c # d # r"] ID_head[of "c # d # r"] SECP_head[of "c # d # r"]
    ACTOR_head[of "c # d # r"] BLS_head[of "c # d # r"] by simp_all

lemma validateAddress_iff_Cons2:
  "validateAddress (c # d # r) \<longleftrightarrow>
     regex_test ETH_ADDRESS (c # d # r) \<or> regex_test ID_ADDRESS (c # d # r) \<or>
     regex_test SECP256K1_ADDRESS (c # d # r) \<or>
     regex_test ACTOR_ADDRESS (c # d # r) \<or> regex_test BLS_ADDRESS (c # d # r) \<or>
     ((c = CHR ''f'' \<or> c = CHR ''t'') \<and> d = CHR ''4'' \<and> 2 \<le> length r)"
  (is "?L \<longleftrightarrow> ?E \<or> ?I \<or> ?S \<or> ?A \<or> ?B \<or> ?D")
proof
  assume ?L
  then show "?E \<or> ?I \<or> ?S \<or> ?A \<or> ?B \<or> ?D"
    unfolding validateAddress_Cons2 by (simp split: if_splits)
next
  assume "?E \<or> ?I \<or> ?S \<or> ?A \<or> ?B \<or> ?D"
  then consider ?E | ?I | ?S | ?A | ?B | ?D by blast
  then show ?L
  proof cases
    case 1
    with pattern_Cons2(1)[OF 1] show ?thesis unfolding validateAddress_Cons2 by simp
  next
    case 2
    with pattern_Cons2(2)[OF 2] show ?thesis unfolding validateAddress_Cons2 by auto
  next
    case 3
    with pattern_Cons2(3)[OF 3] show ?thesis unfolding validateAddress_Cons2 by auto
  next
    case 4
    with pattern_Cons2(4)[OF 4] show ?thesis unfolding validateAddress_Cons2 by auto
  next
    case 5
    with pattern_Cons2(5)[OF 5] show ?thesis unfolding validateAddress_Cons2 by auto
  next
    case 6
    then show ?thesis unfolding validateAddress_Cons2 by auto
  qed
qed

lemma validateAddress_iff:
  "validateAddress a \<longleftrightarrow>
     regex_test ETH_ADDRESS a \<or> regex_test ID_ADDRESS a \<or> regex_test SECP256K1_ADDRESS a \<or>
     regex_test ACTOR_ADDRESS a \<or> regex_test BLS_ADDRESS a \<or>
     (\<exists>p r. a = p # CHR ''4'' # r \<and> (p = CHR ''f'' \<or> p = CHR ''t'') \<and> 2 \<le> length r)"
proof (cases a)
  case Nil
  then show ?thesis using ETH_head[of a] ID_head[of a] SECP_head[of a] ACTOR_head[of a] BLS_head[of a]
    by (auto simp: validateAddress_short)
next
  case (Cons c t)
  show ?thesis
  proof (cases t)
    case Nil
    with Cons show ?thesis using ETH_head[of a] ID_head[of a] SECP_head[of a] ACTOR_head[of a] BLS_head[of a] 
      by (auto simp: validateAddress_short)
  next
    case (Cons d r)
    with \<open>a = c # t\<close> have a: "a = c # d # r" by simp
    show ?thesis unfolding a validateAddress_iff_Cons2 by auto
  qed
qed

lemma toLowerChar_hex:
  "c \<in> set hex \<Longrightarrow> toLowerChar c \<in> set lower_hex \<and> toLowerChar (toLowerChar c) = toLowerChar c"
proof -
  have "list_all (\<lambda>c. toLowerChar c \<in> set lower_hex \<and> toLowerChar (toLowerChar c) = toLowerChar c) hex"
    by (simp add: hex_def lower_hex_def toLowerChar_def)
  then show "c \<in> set hex \<Longrightarrow> toLowerChar c \<in> set lower_hex \<and> toLowerChar (toLowerChar c) = toLowerChar c"
    by (simp add: list_all_iff)
qed

lemma toLowerChar_f410f: "map toLowerChar ''f410f'' = ''f410f''" "map toLowerChar ''0x'' = ''0x''"
  by (simp_all add: toLowerChar_def)

lemma eth_roundtrip:
  assumes "regex_test ETH_ADDRESS e"
  shows "ethAddressToFilecoin e False = Inr (''f410f'' @ drop 2 (toLowerCase e))"
    and "length (drop 2 (toLowerCase e)) = 40"
    and "set (drop 2 (toLowerCase e)) \<subseteq> set lower_hex"
    and "filecoinToEthAddress (''f410f'' @ drop 2 (toLowerCase e)) = Some (toLowerCase e)"
proof -
  from assms obtain h where e: "e = ''0x'' @ h" and len: "length h = 40" and hex: "set h \<subseteq> set hex"
    unfolding ETH_ADDRESS_iff by blast
  define lh where "lh = map toLowerChar h"
  have low: "toLowerCase e = ''0x'' @ lh"
    unfolding e toLowerCase_def lh_def map_append toLowerChar_f410f ..
  have d2: "drop 2 (toLowerCase e) = lh" unfolding low by simp
  have lenl: "length lh = 40" using len by (simp add: lh_def)
  have setl: "set lh \<subseteq> set lower_hex" using hex toLowerChar_hex by (auto simp: lh_def)
  have idem: "map toLowerChar lh = lh" using hex toLowerChar_hex by (auto simp: lh_def)
  show "ethAddressToFilecoin e False = Inr (''f410f'' @ drop 2 (toLowerCase e))"
    using assms by (simp add: ethAddressToFilecoin_def)
  show "length (drop 2 (toLowerCase e)) = 40" unfolding d2 by (rule lenl)
  show "set (drop 2 (toLowerCase e)) \<subseteq> set lower_hex" unfolding d2 by (rule setl)
  have "regex_test F4_ETH_PATTERN (''f410f'' @ lh)"
    unfolding F4_ETH_PATTERN_iff using lenl setl by (intro exI[of _ "CHR ''f''"] exI[of _ lh]) simp
  then have "regex_test_i F4_ETH_PATTERN (''f410f'' @ lh)"
    unfolding regex_test_i_def map_append toLowerChar_f410f idem .
  then show "filecoinToEthAddress (''f410f'' @ drop 2 (toLowerCase e)) = Some (toLowerCase e)"
    unfolding d2 low by (simp add: filecoinToEthAddress_def)
qed

lemma digit_char_props: "d < 10 \<Longrightarrow> digit_char d \<in> set digit \<and> digit_value (digit_char d) = d"
proof -
  assume "d < 10"
  then consider "d = 0" | "d = 1" | "d = 2" | "d = 3" | "d = 4" | "d = 5" | "d = 6" | "d = 7"
    | "d = 8" | "d = 9" by atomize_elim presburger
  then show ?thesis by cases (simp_all add: digit_char_def digit_def digit_value_def)
qed

lemma digits_of_props: "digits_of n \<noteq> [] \<and> set (digits_of n) \<subseteq> set digit"
proof (induction n rule: digits_of.induct)
  case (1 n)
  show ?case
  proof (cases "n < 10")
    case True
    then show ?thesis using digit_char_props[of n] by (subst (1 2) digits_of.simps) simp
  next
    case False
    have "n mod 10 < 10" by simp
    with False 1 show ?thesis using digit_char_props[of "n mod 10"]
      by (subst (1 2) digits_of.simps) simp
  qed
qed

lemma nat_of_digits_snoc: "nat_of_digits (s @ [c]) = 10 * nat_of_digits s + digit_value c"
  by (simp add: nat_of_digits_def)

lemma nat_of_digits_digits_of: "nat_of_digits (digits_of n) = n"
proof (induction n rule: digits_of.induct)
  case (1 n)
  show ?case
  proof (cases "n < 10")
    case True
    then show ?thesis using digit_char_props[of n]
      by (subst digits_of.simps) (simp add: nat_of_digits_def)
  next
    case False
    have "n mod 10 < 10" by simp
    with False 1 show ?thesis using digit_char_props[of "n mod 10"]
      by (subst digits_of.simps) (simp add: nat_of_digits_snoc)
  qed
qed

lemma digit_not_space: "c \<in> set digit \<Longrightarrow> \<not> isWhiteSpace c \<and> c \<noteq> CHR ''-'' \<and> c \<noteq> CHR ''+'' \<and> isDigit c"
proof -
  have "list_all (\<lambda>c. \<not> isWhiteSpace c \<and> c \<noteq> CHR ''-'' \<and> c \<noteq> CHR ''+'' \<and> isDigit c) digit"
    by (simp add: digit_def isWhiteSpace_def isDigit_def)
  then show "c \<in> set digit \<Longrightarrow> \<not> isWhiteSpace c \<and> c \<noteq> CHR ''-'' \<and> c \<noteq> CHR ''+'' \<and> isDigit c"
    by (simp add: list_all_iff)
qed

lemma parseInt_digits:
  assumes "s \<noteq> []" "set s \<subseteq> set digit"
  shows "parseInt s = Some (int (nat_of_digits s))"
proof -
  obtain c t where s: "s = c # t" using assms(1) by (cases s) auto
  with assms(2) have c: "c \<in> set digit" by simp
  have dw: "dropWhile isWhiteSpace s = s" using digit_not_space[OF c] by (simp add: s)
  have tw: "takeWhile isDigit t = t"
    using assms(2) digit_not_space unfolding s by (auto simp: takeWhile_eq_all_conv)
  show ?thesis using digit_not_space[OF c]
    unfolding parseInt_def dw Let_def by (simp add: s tw)
qed

section \<open>Padded piece size: the doubling loop\<close>

lemma next_power_total:
  "0 < sz \<Longrightarrow> \<exists>r. next_power sz d = Some r \<and> d \<le> r \<and> sz \<le> r \<and> (\<exists>j. r = sz * 2 ^ j) \<and> (sz < d \<longrightarrow> r < 2 * d)"
proof (induction "nat (d - sz)" arbitrary: sz rule: less_induct)
  case less
  show ?case
  proof (cases "sz < d")
    case False
    then show ?thesis by (subst next_power.simps) (auto intro: exI[of _ 0])
  next
    case True
    have m: "nat (d - sz * 2) < nat (d - sz)" using True less.prems by simp
    have p: "0 < sz * 2" using less.prems by simp
    from less.hyps[OF m p] obtain r j where r: "next_power (sz * 2) d = Some r" "d \<le> r" "sz * 2 \<le> r"
      "r = sz * 2 * 2 ^ j" "sz * 2 < d \<longrightarrow> r < 2 * d" by blast
    have "r = sz * 2 ^ Suc j" using r(4) by simp
    moreover have "r < 2 * d"
    proof (cases "sz * 2 < d")
      case True then show ?thesis using r(5) by simp
    next
      case False
      then have "next_power (sz * 2) d = Some (sz * 2)" by (subst next_power.simps) simp
      with r(1) have "r = sz * 2" by simp
      with True show ?thesis by simp
    qed
    ultimately show ?thesis using True r by (subst next_power.simps) (auto simp del: power_Suc)
  qed
qed

lemma pow2_gt_128: "(128::int) < 2 ^ j \<Longrightarrow> (256::int) \<le> 2 ^ j"
proof -
  assume a: "(128::int) < 2 ^ j"
  have "\<not> j \<le> 7"
  proof
    assume "j \<le> 7"
    then have "(2::int) ^ j \<le> 2 ^ 7" by (rule power_increasing) simp
    with a show False by simp
  qed
  then have "8 \<le> j" by simp
  then have "(2::int) ^ 8 \<le> 2 ^ j" by (rule power_increasing) simp
  then show ?thesis by simp
qed

lemma pow2_lt_le: "(2::int) ^ j < 2 * 2 ^ k \<Longrightarrow> (2::int) ^ j \<le> 2 ^ k"
proof -
  assume "(2::int) ^ j < 2 * 2 ^ k"
  then have "(2::int) ^ j < 2 ^ Suc k" by simp
  then have "j < Suc k" using power_less_imp_less_exp[of "2::int" j "Suc k"] by simp
  then have "j \<le> k" by simp
  then show ?thesis by (rule power_increasing) simp
qed

lemma padded_spec:
  "\<exists>r k. calculatePaddedPieceSize n = Some r \<and> r = 2 ^ k \<and> 256 \<le> r \<and> n \<le> r
     \<and> (128 < n \<longrightarrow> r < 2 * n)
     \<and> (n \<le> 256 \<longrightarrow> r = 256)
     \<and> (256 \<le> n \<and> (\<exists>i. n = 2 ^ i) \<longrightarrow> r = n)
     \<and> (n \<le> 2 ^ 36 \<longrightarrow> r \<le> 2 ^ 36)"
proof (cases "n \<le> 0")
  case True
  then show ?thesis
    by (intro exI[of _ 256] exI[of _ 8]) (auto simp: calculatePaddedPieceSize_def)
next
  case False
  then have pos: "0 < n" by simp
  from next_power_total[of 1 n] obtain r0 j where r0: "next_power 1 n = Some r0" "n \<le> r0"
    "r0 = 2 ^ j" "1 < n \<longrightarrow> r0 < 2 * n" by auto
  have one: "n = 1 \<Longrightarrow> r0 = 1" using r0(1) by (subst (asm) next_power.simps) simp
  have lt: "n \<noteq> 1 \<Longrightarrow> r0 < 2 * n" using r0(4) pos by simp
  show ?thesis
  proof (cases "r0 < 256")
    case True
    then have c: "calculatePaddedPieceSize n = Some 256"
      using False r0(1) by (simp add: calculatePaddedPieceSize_def)
    have n256: "n < 256" using True r0(2) by simp
    have "\<not> 128 < n"
    proof
      assume "128 < n"
      with r0 have "128 < (2::int) ^ j" by simp
      from pow2_gt_128[OF this] True r0(3) show False by simp
    qed
    moreover have "\<not> 256 \<le> n" using n256 by simp
    ultimately show ?thesis using c n256
      by (intro exI[of _ 256] exI[of _ 8]) simp
  next
    case False
    then have c: "calculatePaddedPieceSize n = Some r0"
      using \<open>\<not> n \<le> 0\<close> r0(1) by (simp add: calculatePaddedPieceSize_def)
    have ne1: "n \<noteq> 1" using one False by auto
    have a: "r0 < 2 * n" using lt[OF ne1] .
    have b: "n \<le> 256 \<Longrightarrow> r0 = 256"
    proof -
      assume "n \<le> 256"
      with a have "r0 < 2 * 2 ^ 8" by simp
      with r0(3) have "r0 \<le> 2 ^ 8" using pow2_lt_le[of j 8] by simp
      with False show "r0 = 256" by simp
    qed
    have d: "\<And>i. n = 2 ^ i \<Longrightarrow> r0 = n"
    proof -
      fix i assume n: "n = 2 ^ i"
      with a r0(3) have "(2::int) ^ j < 2 * 2 ^ i" by simp
      from pow2_lt_le[OF this] r0(2) r0(3) n show "r0 = n" by simp
    qed
    have e: "n \<le> 2 ^ 36 \<Longrightarrow> r0 \<le> 2 ^ 36"
    proof -
      assume "n \<le> 2 ^ 36"
      with a have "r0 < 2 * 2 ^ 36" by simp
      with r0(3) show "r0 \<le> 2 ^ 36" using pow2_lt_le[of j 36] by simp
    qed
    show ?thesis using c r0(2) r0(3) a b d e False
      by (intro exI[of _ r0] exI[of _ j]) auto
  qed
qed

section \<open>Numbers: exact below \<open>2 ^ 53\<close>\<close>

lemma round_to_double_small: "n < 2 ^ 53 \<Longrightarrow> round_to_double n = Some n"
  by (simp add: round_to_double_def)

lemma round_to_double_2_53: "round_to_double (2 ^ 53) = Some (2 ^ 53)"
  by (simp add: round_to_double_def bit_length.simps Let_def)

lemma round_to_double_2_53_1: "round_to_double (2 ^ 53 + 1) = Some (2 ^ 53)"
  by (simp add: round_to_double_def bit_length.simps Let_def)

lemma number_of_int_small: "n < 2 ^ 53 \<Longrightarrow> number_of_int (int n) = Num (int n)"
  by (simp add: number_of_int_def round_to_double_small)

lemma increment_below: "n < 2 ^ 53 \<Longrightarrow> increment (Num (int n)) = Num (int (Suc n))"
proof -
  assume n: "n < 2 ^ 53"
  have "nat \<bar>int n + 1\<bar> = Suc n" by simp
  moreover have "round_to_double (Suc n) = Some (Suc n)"
  proof (cases "Suc n < 2 ^ 53")
    case True then show ?thesis by (rule round_to_double_small)
  next
    case False
    with n have "Suc n = 2 ^ 53" by simp
    then show ?thesis using round_to_double_2_53 by simp
  qed
  ultimately show ?thesis by (simp add: increment_def number_of_int_def)
qed

lemma increment_top: "increment (Num (2 ^ 53)) = Num (2 ^ 53)"
proof -
  have "nat \<bar>(2::int) ^ 53 + 1\<bar> = 2 ^ 53 + 1" by simp
  then show ?thesis using round_to_double_2_53_1
    by (simp add: increment_def number_of_int_def)
qed

section \<open>Request ids, error messages and ID addresses\<close>

lemma call_id:
  "request_id (fst (call this post meth ps)) = increment (requestId this)"
  "requestId (snd (snd (call this post meth ps))) = increment (requestId this)"
  by (simp_all add: call_def Let_def)

lemma increment_sat:
  "k \<le> 2 ^ 53 \<Longrightarrow> increment (Num (int k)) = Num (int (min (Suc k) (2 ^ 53)))"
proof (cases "k < 2 ^ 53")
  case True
  then show ?thesis using increment_below[OF True] by (simp add: min_def)
next
  case False
  assume "k \<le> 2 ^ 53"
  with False have k: "k = 2 ^ 53" by simp
  show ?thesis unfolding k using increment_top by (simp add: min_def)
qed

lemma session_ids_length: "length (session_ids this cs) = length cs"
  by (induction cs arbitrary: this) (auto split: prod.splits)

lemma session_ids_nth:
  "requestId this = Num (int k) \<Longrightarrow> k \<le> 2 ^ 53 \<Longrightarrow> i < length cs \<Longrightarrow>
     session_ids this cs ! i = Num (int (min (k + i + 1) (2 ^ 53)))"
proof (induction cs arbitrary: this k i)
  case Nil
  then show ?case by simp
next
  case (Cons c cs)
  obtain post meth ps where c: "c = (post, meth, ps)" by (cases c) auto
  obtain request r this' where cl: "call this post meth ps = (request, r, this')"
    by (cases "call this post meth ps") auto
  have rid: "request_id request = Num (int (min (Suc k) (2 ^ 53)))"
    using call_id(1)[of this post meth ps] cl Cons.prems(1) increment_sat[OF Cons.prems(2)] by simp
  have st: "requestId this' = Num (int (min (Suc k) (2 ^ 53)))"
    using call_id(2)[of this post meth ps] cl Cons.prems(1) increment_sat[OF Cons.prems(2)] by simp
  show ?case
  proof (cases i)
    case 0
    then show ?thesis using rid by (simp add: c cl)
  next
    case (Suc i')
    with Cons.prems(3) have i': "i' < length cs" by simp
    have le: "min (Suc k) (2 ^ 53) \<le> (2::nat) ^ 53" by simp
    have "session_ids this' cs ! i' = Num (int (min (min (Suc k) (2 ^ 53) + i' + 1) (2 ^ 53)))"
      by (rule Cons.IH[OF st le i'])
    moreover have "min (min (Suc k) (2 ^ 53) + i' + 1) (2 ^ 53) = min (k + Suc i' + 1) ((2::nat) ^ 53)"
      by (simp add: min_def)
    ultimately show ?thesis by (simp add: c cl Suc)
  qed
qed

lemma string_includes_append: "string_includes (a @ m @ b) m"
proof -
  have "length a \<in> set [0 ..< Suc (length (a @ m @ b))]" by simp
  moreover have "take (length m) (drop (length a) (a @ m @ b)) = m" by simp
  ultimately show ?thesis unfolding string_includes_def list_ex_iff by blast
qed

lemma candidate_reads_back: "candidate x j = Some v \<Longrightarrow> round_to_double v = Some x"
  by (auto simp: candidate_def Let_def split: if_splits)

lemma candidate_le: "candidate x j = Some v \<Longrightarrow> v \<le> (x div 10 ^ j) * 10 ^ j + 10 ^ j"
  by (auto simp: candidate_def Let_def split: if_splits)

lemma shortest_decimal_from_reads_back:
  "round_to_double x = Some x \<Longrightarrow> round_to_double (shortest_decimal_from x j) = Some x"
proof (induction x j rule: shortest_decimal_from.induct)
  case (1 x j)
  show ?case
  proof (cases "j = 0")
    case True
    then show ?thesis using "1.prems" by (subst shortest_decimal_from.simps) simp
  next
    case False
    show ?thesis
    proof (cases "candidate x j")
      case None
      with False "1.IH" "1.prems" show ?thesis by (subst shortest_decimal_from.simps) simp
    next
      case (Some v)
      with False candidate_reads_back[OF Some] show ?thesis
        by (subst shortest_decimal_from.simps) simp
    qed
  qed
qed

lemma multiple_above_le:
  fixes x :: nat
  assumes "x < 10 ^ d" "j \<le> d"
  shows "(x div 10 ^ j) * 10 ^ j + 10 ^ j \<le> 10 ^ d"
proof -
  have e: "(10::nat) ^ d = 10 ^ (d - j) * 10 ^ j" using assms(2) by (simp flip: power_add)
  have "x div 10 ^ j < 10 ^ (d - j)"
    using assms(1) unfolding e by (simp add: less_mult_imp_div_less)
  then have "x div 10 ^ j + 1 \<le> 10 ^ (d - j)" by simp
  then have "(x div 10 ^ j + 1) * 10 ^ j \<le> 10 ^ (d - j) * 10 ^ j" by (rule mult_le_mono1)
  then show ?thesis unfolding e by (simp add: algebra_simps)
qed

lemma shortest_decimal_from_le:
  "x < 10 ^ d \<Longrightarrow> j \<le> d \<Longrightarrow> shortest_decimal_from x j \<le> 10 ^ d"
proof (induction x j rule: shortest_decimal_from.induct)
  case (1 x j)
  show ?case
  proof (cases "j = 0")
    case True
    then show ?thesis using "1.prems" by (subst shortest_decimal_from.simps) simp
  next
    case False
    show ?thesis
    proof (cases "candidate x j")
      case None
      with False "1.IH" "1.prems" show ?thesis by (subst shortest_decimal_from.simps) simp
    next
      case (Some v)
      from candidate_le[OF Some] multiple_above_le[OF "1.prems"] have "v \<le> 10 ^ d" by simp
      with False Some show ?thesis by (subst shortest_decimal_from.simps) simp
    qed
  qed
qed

lemma length_digits_of_le: "x < 10 ^ k \<Longrightarrow> 0 < k \<Longrightarrow> length (digits_of x) \<le> k"
proof (induction x arbitrary: k rule: digits_of.induct)
  case (1 n)
  show ?case
  proof (cases "n < 10")
    case True
    then show ?thesis using "1.prems" by (subst digits_of.simps) simp
  next
    case False
    obtain k' where k: "k = Suc k'" using "1.prems"(2) by (cases k) auto
    have "k' \<noteq> 0" using False "1.prems"(1) k by (cases k') auto
    then have k'pos: "0 < k'" by simp
    have "n div 10 < 10 ^ k'" using "1.prems"(1) unfolding k by (simp add: less_mult_imp_div_less)
    from "1.IH"[OF False this k'pos] show ?thesis using False k by (subst digits_of.simps) simp
  qed
qed

lemma round_to_double_10_21: "round_to_double (10 ^ 21) = Some (10 ^ 21)"
  by (simp add: round_to_double_def bit_length.simps Let_def)

lemma shortest_decimal_props:
  assumes "n < 10 ^ 21" "round_to_double n = Some n"
  shows "round_to_double (shortest_decimal n) = Some n" and "shortest_decimal n < 10 ^ 21"
proof -
  show r: "round_to_double (shortest_decimal n) = Some n"
    unfolding shortest_decimal_def by (rule shortest_decimal_from_reads_back[OF assms(2)])
  have "length (digits_of n) \<le> 21" by (rule length_digits_of_le[OF assms(1)]) simp
  then have "length (digits_of n) - 1 \<le> 21" by simp
  from shortest_decimal_from_le[OF assms(1) this] have le: "shortest_decimal n \<le> 10 ^ 21"
    unfolding shortest_decimal_def .
  have "shortest_decimal n \<noteq> 10 ^ 21"
  proof
    assume "shortest_decimal n = 10 ^ 21"
    with r round_to_double_10_21 have "n = 10 ^ 21" by simp
    with assms(1) show False by simp
  qed
  with le show "shortest_decimal n < 10 ^ 21" by simp
qed

lemma id_address_props:
  assumes "n < 10 ^ 21" "round_to_double n = Some n"
  shows "regex_test ID_ADDRESS (createIdAddress (Num (int n)) testnet)"
    and "extractIdFromAddress (createIdAddress (Num (int n)) testnet) = Some (Num (int n))"
    and "validateAddress (createIdAddress (Num (int n)) testnet)"
    and "getAddressType (createIdAddress (Num (int n)) testnet) = Some 0"
    and "\<not> isRobustAddress (createIdAddress (Num (int n)) testnet)"
proof -
  define p where "p = (if testnet then CHR ''t'' else CHR ''f'')"
  define v where "v = shortest_decimal n"
  note sp = shortest_decimal_props[OF assms, folded v_def]
  have a: "createIdAddress (Num (int n)) testnet = p # CHR ''0'' # digits_of v"
    using sp(2) by (simp add: createIdAddress_def number_to_string_def nat_to_string_def p_def v_def Let_def)
  have p: "p = CHR ''f'' \<or> p = CHR ''t''" by (simp add: p_def)
  show id: "regex_test ID_ADDRESS (createIdAddress (Num (int n)) testnet)"
    unfolding a ID_ADDRESS_iff using digits_of_props[of v] p by blast
  have pi: "parseInt (digits_of v) = Some (int v)"
    using parseInt_digits[of "digits_of v"] digits_of_props[of v] nat_of_digits_digits_of[of v] by simp
  have ni: "number_of_int (int v) = Num (int n)"
    using sp(1) by (simp add: number_of_int_def)
  show "extractIdFromAddress (createIdAddress (Num (int n)) testnet) = Some (Num (int n))"
    using id unfolding extractIdFromAddress_def by (simp add: a pi ni)
  show "validateAddress (createIdAddress (Num (int n)) testnet)"
    unfolding validateAddress_iff using id by blast
  have ty: "getAddressType (p # CHR ''0'' # digits_of v) = Some 0"
    using p by (auto simp: getAddressType_def charAt_def parseInt_single isDigit_def digit_value_simps Let_def)
  show "getAddressType (createIdAddress (Num (int n)) testnet) = Some 0"
    unfolding a by (rule ty)
  show "\<not> isRobustAddress (createIdAddress (Num (int n)) testnet)"
    unfolding a isRobustAddress_def Let_def ty by simp
qed

text \<open>Rules that let the simplifier evaluate the number functions on numerals.\<close>

lemma bit_length_numeral:
  "bit_length (numeral (Num.Bit0 k)) = bit_length (numeral k) + 1"
  "bit_length (numeral (Num.Bit1 k)) = bit_length (numeral k) + 1"
  "bit_length (Suc 0) = 1"
  "bit_length 1 = 1"
  "bit_length 0 = 0"
  by (subst bit_length.simps, simp add: bit_length.simps)+

lemma Let_bool: "Let True f = f True" "Let False f = f False"
  by simp_all

lemmas eval_number = nat_to_string_def shortest_decimal_def shortest_decimal_from.simps candidate_def
  round_to_double_def bit_length_numeral Let_bool digits_of.simps digit_char_def strip_trailing_zeros_def

lemma nat_to_string_2_64: "nat_to_string (2 ^ 64) = ''18446744073709552000''"
  by (simp add: eval_number)

section \<open>Address validation and conversion\<close>

text \<open>
  Claim C3 at its failing input. \<open>validateAddress\<close> accepts \<open>f4!!\<close> and \<open>t4!!\<close>,
  which do not match the delegated-address pattern (namespace digits, an \<open>f\<close>, a
  base32 payload): the branch for protocol 4 returns \<open>address.length > 3\<close> and
  \<open>DELEGATED_ADDRESS\<close> is applied nowhere, while the branches for the protocols 0 to 3
  apply their patterns (lemma \<open>validateAddress_iff\<close>).
\<close>

theorem validateAddress_delegated_length_only:
  "validateAddress ''f4!!'' \<and> \<not> regex_test DELEGATED_ADDRESS ''f4!!''
   \<and> validateAddress ''t4!!'' \<and> \<not> regex_test DELEGATED_ADDRESS ''t4!!''"
  by code_simp

text \<open>
  Claim C4. For every string \<open>e\<close> made of \<open>0x\<close> and 40 hexadecimal characters,
  \<open>ethAddressToFilecoin e False\<close> is \<open>f410f\<close> followed by the 40 characters in lower
  case, \<open>filecoinToEthAddress\<close> strips that prefix, and the round trip returns the
  lower-case form of \<open>e\<close>.
\<close>

theorem eth_delegated_round_trip:
  assumes "length h = 40" and "set h \<subseteq> set hex"
  shows "ethAddressToFilecoin (''0x'' @ h) False = Inr (''f410f'' @ toLowerCase h)
    \<and> length (toLowerCase h) = 40 \<and> set (toLowerCase h) \<subseteq> set lower_hex
    \<and> filecoinToEthAddress (''f410f'' @ toLowerCase h) = Some (''0x'' @ toLowerCase h)
    \<and> (case ethAddressToFilecoin (''0x'' @ h) False of
          Inl err \<Rightarrow> None
        | Inr f4 \<Rightarrow> filecoinToEthAddress f4) = Some (toLowerCase (''0x'' @ h))"
proof -
  have e: "regex_test ETH_ADDRESS (''0x'' @ h)"
    unfolding ETH_ADDRESS_iff using assms by blast
  have low: "toLowerCase (''0x'' @ h) = ''0x'' @ toLowerCase h"
    unfolding toLowerCase_def map_append toLowerChar_f410f ..
  have d: "drop 2 (toLowerCase (''0x'' @ h)) = toLowerCase h"
    unfolding low by simp
  note r = eth_roundtrip[OF e, unfolded d]
  show ?thesis using r unfolding low by simp
qed

text \<open>
  Witness for C4: the wrapped-FIL contract address of \<open>constants/addresses.ts\<close>.
\<close>

theorem eth_delegated_round_trip_witness:
  "length ''60E1773636CF5E4A227d9AC24F20fEca034ee25A'' = 40
   \<and> set ''60E1773636CF5E4A227d9AC24F20fEca034ee25A'' \<subseteq> set hex
   \<and> ethAddressToFilecoin ''0x60E1773636CF5E4A227d9AC24F20fEca034ee25A'' False
       = Inr ''f410f60e1773636cf5e4a227d9ac24f20feca034ee25a''
   \<and> filecoinToEthAddress ''f410f60e1773636cf5e4a227d9ac24f20feca034ee25a''
       = Some ''0x60e1773636cf5e4a227d9ac24f20feca034ee25a''"
proof -
  have h1: "length ''60E1773636CF5E4A227d9AC24F20fEca034ee25A'' = 40" by simp
  have h2: "set ''60E1773636CF5E4A227d9AC24F20fEca034ee25A'' \<subseteq> set hex" by (simp add: hex_def)
  have l: "toLowerCase ''60E1773636CF5E4A227d9AC24F20fEca034ee25A''
             = ''60e1773636cf5e4a227d9ac24f20feca034ee25a''"
    by (simp add: toLowerCase_def toLowerChar_def)
  from eth_delegated_round_trip[OF h1 h2] show ?thesis
    unfolding l using h1 h2 by simp
qed

section \<open>CID validation\<close>

text \<open>
  Claim C5 at its failing input. \<open>validateCid\<close> accepts the string made of \<open>b\<close> and
  58 exclamation marks, which is not \<open>b\<close> followed by base32 characters: the branch for
  a leading \<open>b\<close> checks the length alone, \<open>CID_V1_PATTERN\<close> is never applied, and the
  branch for a leading \<open>ba\<close> is never reached. The three values that the claim lists
  are as the claim says.
\<close>

theorem validateCid_v1_ignores_alphabet:
  "validateCid ''b!!!!!!!!!!!!!!!!!!!!!!!!!!!!!!!!!!!!!!!!!!!!!!!!!!!!!!!!!!'' 
   \<and> \<not> regex_test CID_V1_PATTERN ''b!!!!!!!!!!!!!!!!!!!!!!!!!!!!!!!!!!!!!!!!!!!!!!!!!!!!!!!!!!''
   \<and> validateCid ''QmYwAPJzv5CZsnA625s3Xf2nemtYgPpHdWEz79ojWnPbdG''
   \<and> validateCid ''bafybeigdyrzt5sfp7udm7hu76uh7y26nf3efuylqabf3oclgtqy55fbzdi''
   \<and> \<not> validateCid ''invalid''"
  by code_simp

section \<open>Padded piece size\<close>

text \<open>
  Claim C2, as amended. For every \<open>bigint\<close> \<open>n\<close>, \<open>calculatePaddedPieceSize n\<close>
  returns, and the result is a power of two that is at least 256 and at least \<open>n\<close>;
  it is 256 whenever \<open>n \<le> 256\<close> (so for 0 and for 256); for \<open>n > 128\<close> it is below
  \<open>2 n\<close>; it is \<open>n\<close> itself when \<open>n\<close> is a power of two from 256 on; and for \<open>n\<close> up to
  64 GiB (\<open>2 ^ 36\<close>) it is at most 64 GiB. The values at 0, 256 and 257 are 256, 256
  and 512.
\<close>

theorem calculatePaddedPieceSize_spec:
  "(\<exists>r k. calculatePaddedPieceSize n = Some r \<and> r = 2 ^ k \<and> 256 \<le> r \<and> n \<le> r
      \<and> (128 < n \<longrightarrow> r < 2 * n)
      \<and> (n \<le> 256 \<longrightarrow> r = 256)
      \<and> (256 \<le> n \<and> (\<exists>i. n = 2 ^ i) \<longrightarrow> r = n)
      \<and> (n \<le> 2 ^ 36 \<longrightarrow> r \<le> 2 ^ 36))
   \<and> calculatePaddedPieceSize 0 = Some 256
   \<and> calculatePaddedPieceSize 256 = Some 256
   \<and> calculatePaddedPieceSize 257 = Some 512"
proof (intro conjI)
  show "\<exists>r k. calculatePaddedPieceSize n = Some r \<and> r = 2 ^ k \<and> 256 \<le> r \<and> n \<le> r
      \<and> (128 < n \<longrightarrow> r < 2 * n)
      \<and> (n \<le> 256 \<longrightarrow> r = 256)
      \<and> (256 \<le> n \<and> (\<exists>i. n = 2 ^ i) \<longrightarrow> r = n)
      \<and> (n \<le> 2 ^ 36 \<longrightarrow> r \<le> 2 ^ 36)"
    by (rule padded_spec)
  show "calculatePaddedPieceSize 0 = Some 256" by code_simp
  show "calculatePaddedPieceSize 256 = Some 256" by code_simp
  show "calculatePaddedPieceSize 257 = Some 512" by code_simp
qed

text \<open>
  Witness for C2: at \<open>n = 512\<close>, a power of two above 128 and below 64 GiB, the result
  is 512.
\<close>

theorem calculatePaddedPieceSize_spec_witness:
  "(128::int) < 512 \<and> (256::int) \<le> 512 \<and> (\<exists>i. (512::int) = 2 ^ i) \<and> (512::int) \<le> 2 ^ 36
   \<and> calculatePaddedPieceSize 512 = Some 512"
proof -
  have p: "\<exists>i. (512::int) = 2 ^ i" by (rule exI[of _ 9]) simp
  from calculatePaddedPieceSize_spec[of 512] obtain r where
    r: "calculatePaddedPieceSize 512 = Some r" "256 \<le> (512::int) \<and> (\<exists>i. (512::int) = 2 ^ i) \<longrightarrow> r = 512"
    by blast
  from r(2) p have "r = 512" by simp
  with r(1) p show ?thesis by simp
qed

text \<open>
  Counterexample to C2 as stated: 3 is not a power of two and the result for it, 256, is
  not below \<open>2 * 3\<close>; 1 is a power of two and the result for it is 256, not 1.
\<close>

theorem calculatePaddedPieceSize_small_counterexample:
  "calculatePaddedPieceSize 3 = Some 256 \<and> \<not> (256::int) < 2 * 3
   \<and> calculatePaddedPieceSize 1 = Some 256 \<and> (1::int) = 2 ^ 0 \<and> (256::int) \<noteq> 1"
  by code_simp

section \<open>Lotus RPC client\<close>

text \<open>
  Claim C6. When the transport answers a call with a 2xx response whose body carries
  an \<open>error\<close> field, \<open>call\<close> throws an \<open>Error\<close> whose message is
  \<open>Lotus RPC Error: \<close> followed by the server's message, so it contains that message, and
  no result is returned. When the transport fails with an \<open>AxiosError\<close> (status outside
  2xx, connection error), \<open>call\<close> throws an \<open>Error\<close> too: with the server's message
  when the failed response carries an \<open>error\<close> field, with
  \<open>Lotus connection error: \<close> and the transport's message otherwise.
\<close>

theorem call_surfaces_errors:
  "(post (fst (call this post meth ps)) = Response \<lparr>result = res, error = Some e\<rparr> \<longrightarrow>
      fst (snd (call this post meth ps)) = Inl (Error (''Lotus RPC Error: '' @ message e))
      \<and> string_includes (''Lotus RPC Error: '' @ message e) (message e))
   \<and> (post (fst (call this post meth ps)) = AxiosError msg response \<longrightarrow>
      fst (snd (call this post meth ps)) =
        Inl (Error (case (case response of None \<Rightarrow> None | Some data \<Rightarrow> error data) of
                      Some e \<Rightarrow> ''Lotus RPC Error: '' @ message e
                    | None \<Rightarrow> ''Lotus connection error: '' @ msg)))"
proof (intro conjI impI)
  assume a: "post (fst (call this post meth ps)) = Response \<lparr>result = res, error = Some e\<rparr>"
  then show "fst (snd (call this post meth ps)) = Inl (Error (''Lotus RPC Error: '' @ message e))"
    by (simp add: call_def Let_def)
  show "string_includes (''Lotus RPC Error: '' @ message e) (message e)"
    using string_includes_append[of "''Lotus RPC Error: ''" "message e" "[]"] by simp
next
  assume a: "post (fst (call this post meth ps)) = AxiosError msg response"
  then show "fst (snd (call this post meth ps)) =
        Inl (Error (case (case response of None \<Rightarrow> None | Some data \<Rightarrow> error data) of
                      Some e \<Rightarrow> ''Lotus RPC Error: '' @ message e
                    | None \<Rightarrow> ''Lotus connection error: '' @ msg))"
    by (simp add: call_def Let_def split: option.splits)
qed

text \<open>
  Witness for C6: the scenario of the specification, a 200 response with the body
  \<open>{"error":{"code":1,"message":"actor not found"}}\<close>, and a connection that times out.
\<close>

theorem call_surfaces_errors_witness:
  "fst (snd (call new_LotusClient
       (\<lambda>request. Response \<lparr>result = (None :: unit option),
                              error = Some \<lparr>code = 1, message = ''actor not found''\<rparr>\<rparr>)
       ''StateGetActor'' ([] :: unit list)))
     = Inl (Error ''Lotus RPC Error: actor not found'')
   \<and> string_includes ''Lotus RPC Error: actor not found'' ''actor not found''
   \<and> fst (snd (call new_LotusClient
       (\<lambda>request. (AxiosError ''timeout of 30000ms exceeded'' None :: unit post_outcome))
       ''ChainHead'' ([] :: unit list)))
     = Inl (Error ''Lotus connection error: timeout of 30000ms exceeded'')"
proof -
  note t1 = call_surfaces_errors[of
      "\<lambda>request. Response \<lparr>result = (None :: unit option),
                             error = Some \<lparr>code = 1, message = ''actor not found''\<rparr>\<rparr>"
      new_LotusClient "''StateGetActor''" "[] :: unit list" None
      "\<lparr>code = 1, message = ''actor not found''\<rparr>"]
  note t2 = call_surfaces_errors[of
      "\<lambda>request. (AxiosError ''timeout of 30000ms exceeded'' None :: unit post_outcome)"
      new_LotusClient "''ChainHead''" "[] :: unit list" _ _ "''timeout of 30000ms exceeded''" None]
  from t1 t2 show ?thesis by simp
qed

text \<open>
  Claim C7, as amended. In a session of a new client that makes at most \<open>2 ^ 53\<close>
  calls, whatever the transport does on each call (success, RPC error, failure), the
  \<open>n\<close>-th call carries the id \<open>n\<close>: ids start at 1, grow by 1 with every call and are
  pairwise distinct. (The counter is a JavaScript number; from \<open>2 ^ 53\<close> on the
  increment no longer changes it.)
\<close>

theorem session_ids_count:
  assumes "length cs \<le> 2 ^ 53"
  shows "length (session_ids new_LotusClient cs) = length cs
    \<and> (\<forall>i < length cs. session_ids new_LotusClient cs ! i = Num (int (i + 1)))
    \<and> distinct (session_ids new_LotusClient cs)"
proof -
  have nth: "session_ids new_LotusClient cs ! i = Num (int (i + 1))" if "i < length cs" for i
  proof -
    have "session_ids new_LotusClient cs ! i = Num (int (min (0 + i + 1) (2 ^ 53)))"
      by (rule session_ids_nth[OF _ _ that]) (simp_all add: new_LotusClient_def)
    moreover have "i + 1 \<le> 2 ^ 53" using that assms by simp
    ultimately show ?thesis by (simp add: min_def)
  qed
  have "distinct (session_ids new_LotusClient cs)"
    unfolding distinct_conv_nth session_ids_length using nth by simp
  with nth show ?thesis by (simp add: session_ids_length)
qed

text \<open>
  Witness for C7: three calls, one answered, one answered with an RPC error and one
  that fails in the transport, carry the ids 1, 2 and 3.
\<close>

theorem session_ids_count_witness:
  "length [(\<lambda>request. Response \<lparr>result = Some (), error = None\<rparr>, ''ChainHead'', [] :: unit list),
           (\<lambda>request. Response \<lparr>result = None, error = Some \<lparr>code = 1, message = ''actor not found''\<rparr>\<rparr>,
              ''StateGetActor'', []),
           (\<lambda>request. AxiosError ''Network Error'' None, ''ChainHead'', [])] \<le> (2::nat) ^ 53
   \<and> session_ids new_LotusClient
        [(\<lambda>request. Response \<lparr>result = Some (), error = None\<rparr>, ''ChainHead'', [] :: unit list),
         (\<lambda>request. Response \<lparr>result = None, error = Some \<lparr>code = 1, message = ''actor not found''\<rparr>\<rparr>,
            ''StateGetActor'', []),
         (\<lambda>request. AxiosError ''Network Error'' None, ''ChainHead'', [])]
      = [Num 1, Num 2, Num 3]"
proof -
  let ?cs = "[(\<lambda>request. Response \<lparr>result = Some (), error = None\<rparr>, ''ChainHead'', [] :: unit list),
           (\<lambda>request. Response \<lparr>result = None, error = Some \<lparr>code = 1, message = ''actor not found''\<rparr>\<rparr>,
              ''StateGetActor'', []),
           (\<lambda>request. AxiosError ''Network Error'' None, ''ChainHead'', [])]"
  have h: "length ?cs \<le> (2::nat) ^ 53" by simp
  define ids where "ids = session_ids new_LotusClient ?cs"
  from session_ids_count[OF h] have
    l: "length ids = 3" and n: "\<forall>i < 3. ids ! i = Num (int (i + 1))"
    unfolding ids_def by simp_all
  from n have "ids ! 0 = Num 1" "ids ! 1 = Num 2" "ids ! 2 = Num 3" by simp_all
  moreover from l have "ids = [ids ! 0, ids ! 1, ids ! 2]"
    by (auto simp: numeral_3_eq_3 length_Suc_conv)
  ultimately have "ids = [Num 1, Num 2, Num 3]" by simp
  with h show ?thesis unfolding ids_def by blast
qed

text \<open>
  Counterexample to C7 as stated: in a session of \<open>2 ^ 53 + 1\<close> calls the last call
  carries the id \<open>2 ^ 53\<close>, not \<open>2 ^ 53 + 1\<close>, and so does the call before it: the id is
  used twice.
\<close>

theorem session_ids_reuse_counterexample:
  "session_ids new_LotusClient
      (replicate (2 ^ 53 + 1) (\<lambda>request. (AxiosError ''Network Error'' None :: unit post_outcome),
                               ''ChainHead'', [] :: unit list)) ! (2 ^ 53) = Num (2 ^ 53)
   \<and> session_ids new_LotusClient
      (replicate (2 ^ 53 + 1) (\<lambda>request. (AxiosError ''Network Error'' None :: unit post_outcome),
                               ''ChainHead'', [] :: unit list)) ! (2 ^ 53 - 1) = Num (2 ^ 53)"
proof -
  let ?cs = "replicate (2 ^ 53 + 1) (\<lambda>request. (AxiosError ''Network Error'' None :: unit post_outcome),
                               ''ChainHead'', [] :: unit list)"
  have r: "requestId new_LotusClient = Num (int 0)" by (simp add: new_LotusClient_def)
  have "session_ids new_LotusClient ?cs ! (2 ^ 53) = Num (int (min (0 + 2 ^ 53 + 1) (2 ^ 53)))"
    by (rule session_ids_nth[OF r]) simp_all
  moreover have "session_ids new_LotusClient ?cs ! (2 ^ 53 - 1) = Num (int (min (0 + (2 ^ 53 - 1) + 1) (2 ^ 53)))"
    by (rule session_ids_nth[OF r]) simp_all
  ultimately show ?thesis by simp
qed

section \<open>ID addresses\<close>

text \<open>
  Claim C10, as amended. For every non-negative integer \<open>id\<close> below \<open>10 ^ 21\<close> that
  a JavaScript number holds (the integer is its own nearest double; every integer up
  to \<open>2 ^ 53\<close> is, by \<open>round_to_double_small\<close>) and every \<open>testnet\<close> flag, the address
  built by \<open>createIdAddress\<close> matches the ID pattern, \<open>extractIdFromAddress\<close> returns
  \<open>id\<close> from it, \<open>validateAddress\<close> accepts it, its address type is 0 (ID) and
  \<open>isRobustAddress\<close> is false on it.
\<close>

theorem id_address_round_trip:
  assumes "n < 10 ^ 21" and "round_to_double n = Some n"
  shows "extractIdFromAddress (createIdAddress (Num (int n)) testnet) = Some (Num (int n))
    \<and> validateAddress (createIdAddress (Num (int n)) testnet)
    \<and> regex_test ID_ADDRESS (createIdAddress (Num (int n)) testnet)
    \<and> getAddressType (createIdAddress (Num (int n)) testnet) = Some 0
    \<and> \<not> isRobustAddress (createIdAddress (Num (int n)) testnet)"
  using id_address_props[OF assms, of testnet] by simp

text \<open>
  Witness for C10: the id \<open>2 ^ 64\<close>, beyond the safe integers, is printed with the
  shortest digits that read back as it, \<open>18446744073709552000\<close>, and the address
  \<open>f018446744073709552000\<close> gives the id back.
\<close>

theorem id_address_round_trip_witness:
  "(2::nat) ^ 64 < 10 ^ 21 \<and> round_to_double (2 ^ 64) = Some (2 ^ 64)
   \<and> createIdAddress (Num (2 ^ 64)) False = ''f018446744073709552000''
   \<and> extractIdFromAddress ''f018446744073709552000'' = Some (Num (2 ^ 64))
   \<and> validateAddress ''f018446744073709552000''
   \<and> \<not> isRobustAddress ''f018446744073709552000''"
proof -
  have h1: "(2::nat) ^ 64 < 10 ^ 21" by simp
  have h2: "round_to_double (2 ^ 64) = Some (2 ^ 64)"
    by (simp add: round_to_double_def bit_length_numeral)
  have c: "createIdAddress (Num (int (2 ^ 64))) False = ''f018446744073709552000''"
    using nat_to_string_2_64 by (simp add: createIdAddress_def number_to_string_def)
  from id_address_round_trip[OF h1 h2, of False] show ?thesis
    unfolding c using h1 h2 c by simp
qed

text \<open>
  Counterexample to C10 as stated: the non-negative integer \<open>10 ^ 21\<close> is a JavaScript
  number and is printed as \<open>1e+21\<close>; the address \<open>f01e+21\<close> is rejected by
  \<open>validateAddress\<close> and \<open>extractIdFromAddress\<close> returns \<open>null\<close> on it.
\<close>

theorem id_address_exponent_counterexample:
  "createIdAddress (Num (10 ^ 21)) False = ''f01e+21''
   \<and> \<not> validateAddress ''f01e+21''
   \<and> extractIdFromAddress ''f01e+21'' = None"
proof -
  have n: "nat_to_string (10 ^ 21) = ''1e+21''" by (simp add: eval_number)
  have c: "createIdAddress (Num (10 ^ 21)) False = ''f01e+21''"
    using n by (simp add: createIdAddress_def number_to_string_def)
  have v: "\<not> validateAddress ''f01e+21''" by code_simp
  have x: "extractIdFromAddress ''f01e+21'' = None" by code_simp
  from c v x show ?thesis by simp
qed

end
